theory Spec2Isabelle
  imports Main "HOL-Library.Word"
begin

section \<open>JavaScript numbers, as far as the form code uses them\<close>

text \<open>
  A JavaScript number is an IEEE-754 double. The word-count code only ever holds
  non-negative integral doubles and \<open>+Infinity\<close> (\<open>parseInt\<close> of a run of decimal digits,
  a sum of two of them, half of it rounded down, a maximum), so a number is modelled as
  a natural number or \<open>PosInf\<close>. Conversion of an exact integer to the nearest double
  (round to nearest, ties to even, overflow to \<open>+Infinity\<close>) is \<open>round_double\<close>: integers
  below \<open>2 ^ 53\<close> are kept exactly, larger ones keep 53 significant bits.
\<close>

datatype number = Fin nat | PosInf

fun bit_length :: "nat \<Rightarrow> nat" where
  "bit_length n = (if n = 0 then 0 else Suc (bit_length (n div 2)))"

declare bit_length.simps [simp del]

definition round_double :: "nat \<Rightarrow> number" where
  "round_double n =
     (if n < 2 ^ 53 then Fin n
      else if 2 ^ 1024 - 2 ^ 970 \<le> n then PosInf
      else let e = bit_length n - 53;
               q = n div 2 ^ e;
               r = n mod 2 ^ e;
               q' = (if 2 ^ (e - 1) < r \<or> (r = 2 ^ (e - 1) \<and> odd q) then q + 1 else q)
           in Fin (q' * 2 ^ e))"

text \<open>\<open>a < b\<close> on numbers (no NaN arises here).\<close>

fun js_lt :: "number \<Rightarrow> number \<Rightarrow> bool" where
  "js_lt (Fin a) (Fin b) = (a < b)"
| "js_lt (Fin a) PosInf = True"
| "js_lt PosInf b = False"

text \<open>\<open>a > b\<close> and \<open>a >= b\<close>.\<close>

definition js_gt :: "number \<Rightarrow> number \<Rightarrow> bool" where
  "js_gt a b = js_lt b a"

definition js_ge :: "number \<Rightarrow> number \<Rightarrow> bool" where
  "js_ge a b = (js_lt b a \<or> a = b)"

text \<open>\<open>a + b\<close>: the exact sum, rounded to a double.\<close>

fun js_add :: "number \<Rightarrow> number \<Rightarrow> number" where
  "js_add (Fin a) (Fin b) = round_double (a + b)"
| "js_add a b = PosInf"

text \<open>
  \<open>Math.floor(x / 2)\<close>. Halving a non-negative integral double is exact (below \<open>2 ^ 53\<close>
  the half has at most 53 significant bits, above it the double is even), so the floor
  of the half is the integer quotient.
\<close>

fun floor_half :: "number \<Rightarrow> number" where
  "floor_half (Fin n) = Fin (n div 2)"
| "floor_half PosInf = PosInf"

text \<open>\<open>Math.max(a, b)\<close>.\<close>

definition js_max :: "number \<Rightarrow> number \<Rightarrow> number" where
  "js_max a b = (if js_lt a b then b else a)"

text \<open>\<open>Number.isInteger\<close>.\<close>

fun is_integer :: "number \<Rightarrow> bool" where
  "is_integer (Fin n) = True"
| "is_integer PosInf = False"

section \<open>Strings and the range pattern\<close>

text \<open>
  A \<open>char\<close> stands for a UTF-16 code unit below 256. The pattern \<open>/^(\d+)-(\d+)$/\<close> has
  no flags: \<open>\d\<close> is one of the ten ASCII digits and \<open>$\<close> is the end of the input, so a
  string matches exactly when it is a non-empty run of digits, a hyphen and another
  non-empty run of digits; the two groups are returned.
\<close>

definition is_digit :: "char \<Rightarrow> bool" where
  "is_digit c = (c \<in> set ''0123456789'')"

definition match_range :: "string \<Rightarrow> (string \<times> string) option" where
  "match_range s =
     (let a = takeWhile is_digit s in
      case dropWhile is_digit s of
        [] \<Rightarrow> None
      | c # b \<Rightarrow>
          if a \<noteq> [] \<and> c = CHR ''-'' \<and> b \<noteq> [] \<and> list_all is_digit b
          then Some (a, b) else None)"

definition digit_val :: "char \<Rightarrow> nat" where
  "digit_val c = of_char c - 48"

definition dec_value :: "string \<Rightarrow> nat" where
  "dec_value ds = foldl (\<lambda>acc c. 10 * acc + digit_val c) 0 ds"

text \<open>
  \<open>parseInt(ds, 10)\<close> on a non-empty run of digits: the integer the digits denote,
  converted to a double. (The language lets an implementation replace the digits after
  the twentieth significant one by zeros before converting; the model converts the
  exact integer, as the common engines do.)
\<close>

definition parseInt10 :: "string \<Rightarrow> number" where
  "parseInt10 ds = round_double (dec_value ds)"

section \<open>forms/schema.ts\<close>

text \<open>\<open>normalizeWordCount\<close>: the default 50 on a malformed or rejected range, else the
  floor of the midpoint, at least 50.\<close>

definition normalizeWordCount :: "string \<Rightarrow> number" where
  "normalizeWordCount wordCount =
     (case match_range wordCount of
        None \<Rightarrow> Fin 50
      | Some (m1, m2) \<Rightarrow>
          let mn = parseInt10 m1; mx = parseInt10 m2 in
          if js_lt mn (Fin 50) \<or> js_lt mx (Fin 50) \<or> js_gt mn mx then Fin 50
          else let result = floor_half (js_add mn mx) in js_max (Fin 50) result)"

text \<open>
  The issues a field schema reports. Their messages in the source are
  \<open>Word count must be in format "min-max"\<close>, \<open>Minimum word count must be at least 50\<close>
  and \<open>Please select a valid tone\<close>.
\<close>

datatype issue = InvalidFormat | MinBelow50 | InvalidTone

text \<open>\<open>.regex(/^\d+-\d+$/, ...)\<close>: the same language as the pattern with groups.\<close>

definition regex_range :: "string \<Rightarrow> bool" where
  "regex_range val = (match_range val \<noteq> None)"

text \<open>The function given to \<open>.refine\<close>.\<close>

definition refine_min :: "string \<Rightarrow> bool" where
  "refine_min val =
     (case match_range val of
        None \<Rightarrow> False
      | Some (m1, m2) \<Rightarrow> let mn = parseInt10 m1 in js_ge mn (Fin 50))"

text \<open>
  \<open>blogPostSchema.word_count\<close> (the other schemas carry the same chain): the string is
  accepted when neither check raises an issue.
\<close>

definition word_count_schema :: "string \<Rightarrow> issue list + string" where
  "word_count_schema val =
     (let issues = (if regex_range val then [] else [InvalidFormat]) @
                   (if refine_min val then [] else [MinBelow50])
      in if issues = [] then Inr val else Inl issues)"

text \<open>\<open>blogPostSchema.tone\<close>: \<open>z.enum\<close> accepts exactly the listed strings.\<close>

definition tones :: "string list" where
  "tones = [''professional'', ''casual'', ''friendly'', ''formal'', ''engaging'', ''persuasive'']"

definition tone_schema :: "string \<Rightarrow> issue list + string" where
  "tone_schema val = (if val \<in> set tones then Inr val else Inl [InvalidTone])"

text \<open>
  \<open>toLowerCase\<close> and \<open>trim\<close> on strings of code units below 256, which is where the
  tones of the enumeration live: the upper-case letters there are \<open>A\<close> to \<open>Z\<close> and U+00C0
  to U+00DE without the multiplication sign U+00D7, each 32 below its lower-case
  letter; the white space and line terminators there are U+0009 to U+000D, the space
  and the no-break space U+00A0. These are the restrictions of the functions on all
  UTF-16 strings that follow (\<open>normalizeTone_latin1\<close> below).
\<close>

definition to_lower_char :: "char \<Rightarrow> char" where
  "to_lower_char c =
     (let n = (of_char c :: nat) in
      if (65 \<le> n \<and> n \<le> 90) \<or> (192 \<le> n \<and> n \<le> 222 \<and> n \<noteq> 215)
      then char_of (n + 32) else c)"

definition toLowerCase :: "string \<Rightarrow> string" where
  "toLowerCase s = map to_lower_char s"

definition is_white_space :: "char \<Rightarrow> bool" where
  "is_white_space c = ((of_char c :: nat) \<in> {9, 10, 11, 12, 13, 32, 160})"

definition trim :: "string \<Rightarrow> string" where
  "trim s = rev (dropWhile is_white_space (rev (dropWhile is_white_space s)))"

definition normalizeTone :: "string \<Rightarrow> string" where
  "normalizeTone tone = trim (toLowerCase tone)"

subsection \<open>The same on all strings\<close>

text \<open>
  A JavaScript string is a sequence of 16-bit code units. \<open>toLowerCase\<close> reads it as code
  points (a high surrogate followed by a low one is one code point, any other code unit
  stands for itself), maps the code points to lower case and writes the result back as
  code units.
\<close>

definition is_high :: "16 word \<Rightarrow> bool" where
  "is_high u = (0xD800 \<le> unat u \<and> unat u \<le> 0xDBFF)"

definition is_low :: "16 word \<Rightarrow> bool" where
  "is_low u = (0xDC00 \<le> unat u \<and> unat u \<le> 0xDFFF)"

fun code_points :: "16 word list \<Rightarrow> nat list" where
  "code_points [] = []"
| "code_points [u] = [unat u]"
| "code_points (u # v # us) =
     (if is_high u \<and> is_low v
      then (0x10000 + (unat u - 0xD800) * 0x400 + (unat v - 0xDC00)) # code_points us
      else unat u # code_points (v # us))"

definition code_units :: "nat \<Rightarrow> 16 word list" where
  "code_units cp =
     (if cp < 0x10000 then [of_nat cp]
      else [of_nat (0xD800 + (cp - 0x10000) div 0x400),
            of_nat (0xDC00 + (cp - 0x10000) mod 0x400)])"

definition from_code_points :: "nat list \<Rightarrow> 16 word list" where
  "from_code_points cps = concat (map code_units cps)"

text \<open>
  The Unicode data the conversion reads is not part of the program and is taken as a
  parameter: the lower-case mapping of a code point (from UnicodeData and the
  unconditional entries of SpecialCasing; it may be several code points, as for U+0130),
  and the properties Cased and Case_Ignorable.
\<close>

record unicode =
  lower_map :: "nat \<Rightarrow> nat list"
  cased :: "nat \<Rightarrow> bool"
  case_ignorable :: "nat \<Rightarrow> bool"

text \<open>
  The one mapping that depends on the context, and not on a language, is that of the
  capital sigma U+03A3: it becomes the final sigma U+03C2 when a cased letter and then
  any number of case-ignorable characters come right before it and no run of
  case-ignorable characters and then a cased letter comes right after it, and the small
  sigma U+03C3 otherwise. \<open>before\<close> is the text before the character, nearest first.
\<close>

fun cased_then_ignorable :: "unicode \<Rightarrow> nat list \<Rightarrow> bool" where
  "cased_then_ignorable U [] = False"
| "cased_then_ignorable U (c # cs) =
     (cased U c \<or> (case_ignorable U c \<and> cased_then_ignorable U cs))"

definition final_sigma :: "unicode \<Rightarrow> nat list \<Rightarrow> nat list \<Rightarrow> bool" where
  "final_sigma U before after =
     (cased_then_ignorable U before \<and> \<not> cased_then_ignorable U after)"

definition lowercase_mapping :: "unicode \<Rightarrow> nat list \<Rightarrow> nat \<Rightarrow> nat list \<Rightarrow> nat list" where
  "lowercase_mapping U before c after =
     (if c = 0x3A3 then (if final_sigma U before after then [0x3C2] else [0x3C3])
      else lower_map U c)"

fun to_lowercase :: "unicode \<Rightarrow> nat list \<Rightarrow> nat list \<Rightarrow> nat list" where
  "to_lowercase U before [] = []"
| "to_lowercase U before (c # after) =
     lowercase_mapping U before c after @ to_lowercase U (c # before) after"

definition toLowerCase_utf16 :: "unicode \<Rightarrow> 16 word list \<Rightarrow> 16 word list" where
  "toLowerCase_utf16 U s = from_code_points (to_lowercase U [] (code_points s))"

text \<open>
  \<open>trim\<close> removes white space and line terminators from both ends: U+0009 to U+000D,
  U+0020, U+00A0, U+FEFF, the other space separators U+1680, U+2000 to U+200A, U+202F,
  U+205F and U+3000, and the separators U+2028 and U+2029.
\<close>

definition white_space :: "16 word \<Rightarrow> bool" where
  "white_space u =
     (unat u \<in> {0x9, 0xA, 0xB, 0xC, 0xD, 0x20, 0xA0, 0x1680, 0x2028, 0x2029, 0x202F,
                 0x205F, 0x3000, 0xFEFF} \<or>
      (0x2000 \<le> unat u \<and> unat u \<le> 0x200A))"

definition trim_utf16 :: "16 word list \<Rightarrow> 16 word list" where
  "trim_utf16 s = rev (dropWhile white_space (rev (dropWhile white_space s)))"

definition normalizeTone_utf16 :: "unicode \<Rightarrow> 16 word list \<Rightarrow> 16 word list" where
  "normalizeTone_utf16 U tone = trim_utf16 (toLowerCase_utf16 U tone)"

text \<open>
  On code points below 256 the data is that of \<open>to_lower_char\<close>, and no sigma occurs, so
  that the two properties are never consulted. \<open>unit\<close> is the code unit of a character.
\<close>

definition latin1 :: unicode where
  "latin1 =
     \<lparr>lower_map = (\<lambda>c. if c < 256 then [of_char (to_lower_char (char_of c))] else [c]),
      cased = (\<lambda>c. False),
      case_ignorable = (\<lambda>c. False)\<rparr>"

definition unit :: "char \<Rightarrow> 16 word" where
  "unit c = of_nat (of_char c)"


text \<open>
  The forms submit through \<open>handleSubmit(onSubmit)\<close> with the schema as resolver:
  \<open>onSubmit\<close> runs only on data the schema accepted, and computes the word target from
  the accepted \<open>word_count\<close>.
\<close>

definition submit_word_count :: "string \<Rightarrow> issue list + number" where
  "submit_word_count val =
     (case word_count_schema val of
        Inl issues \<Rightarrow> Inl issues
      | Inr word_count \<Rightarrow> Inr (normalizeWordCount word_count))"

section \<open>services/api.ts: the streaming client\<close>

text \<open>
  What \<open>JSON.parse\<close> returns. A number is kept as its canonical rendering (what
  \<open>String\<close> gives for it), which is all the client observes of it; an object is the list
  of its own properties, each key once.
\<close>

datatype json =
    JNull
  | JBool bool
  | JNum string
  | JStr string
  | JArr "json list"
  | JObj "(string \<times> json) list"

text \<open>Truthiness, as \<open>if (data.content)\<close> tests it.\<close>

fun truthy :: "json \<Rightarrow> bool" where
  "truthy JNull = False"
| "truthy (JBool b) = b"
| "truthy (JNum n) = (n \<noteq> ''0'' \<and> n \<noteq> ''NaN'')"
| "truthy (JStr s) = (s \<noteq> [])"
| "truthy (JArr xs) = True"
| "truthy (JObj kvs) = True"

fun join_comma :: "string list \<Rightarrow> string" where
  "join_comma [] = []"
| "join_comma [s] = s"
| "join_comma (s # t # ss) = s @ '','' @ join_comma (t # ss)"

text \<open>
  The string that \<open>fullContent += v\<close> appends, or \<open>None\<close> when the conversion throws a
  \<open>TypeError\<close>. A string is taken as it is. An object is converted by its \<open>toString\<close>
  method: the inherited one gives \<open>[object Object]\<close>, but an own property named
  \<open>toString\<close> hides it, and what \<open>JSON.parse\<close> puts there is never callable, so the
  conversion throws (the inherited \<open>valueOf\<close> returns the object itself and an own one
  is not callable either). An array is its elements joined by commas, a \<open>null\<close> element
  as the empty string, and throws when the conversion of an element does.
\<close>

fun to_string :: "json \<Rightarrow> string option" where
  "to_string JNull = Some ''null''"
| "to_string (JBool b) = Some (if b then ''true'' else ''false'')"
| "to_string (JNum n) = Some n"
| "to_string (JStr s) = Some s"
| "to_string (JArr xs) =
     map_option join_comma
       (those (map (\<lambda>x. if x = JNull then Some [] else to_string x) xs))"
| "to_string (JObj kvs) =
     (if ''toString'' \<in> set (map fst kvs) then None else Some ''[object Object]'')"

text \<open>
  \<open>data.content\<close>: reading a property of \<open>null\<close> throws (\<open>None\<close>); an object yields its
  property or \<open>undefined\<close>; any other value has no such property.
\<close>

datatype property = Undefined | Value json

fun get_content :: "json \<Rightarrow> property option" where
  "get_content JNull = None"
| "get_content (JObj kvs) =
     (case map_of kvs ''content'' of None \<Rightarrow> Some Undefined | Some v \<Rightarrow> Some (Value v))"
| "get_content v = Some Undefined"

text \<open>
  What the client does, in order: calls of \<open>eventSource.close()\<close>, of the three
  callbacks, and of \<open>console.error\<close>.
\<close>

datatype action =
    Close
  | OnChunk json
  | OnComplete string
  | OnError string
  | ConsoleError

record client =
  closed :: bool
  fullContent :: string
  trace :: "action list"

definition init :: client where
  "init = \<lparr>closed = False, fullContent = [], trace = []\<rparr>"

text \<open>
  \<open>eventSource.onmessage\<close>, with \<open>JSON.parse\<close> as the parameter \<open>parse\<close> (\<open>None\<close> when
  it throws). A failed parse, a failed property read and a failed conversion in
  \<open>fullContent += data.content\<close> all end in the \<open>catch\<close>; the last throws before
  \<open>fullContent\<close> is assigned and before \<open>onChunk\<close> is called.
\<close>

definition onmessage :: "(string \<Rightarrow> json option) \<Rightarrow> client \<Rightarrow> string \<Rightarrow> client" where
  "onmessage parse st d =
     (if d = ''[DONE]''
      then st\<lparr>closed := True, trace := trace st @ [Close, OnComplete (fullContent st)]\<rparr>
      else
        case parse d of
          None \<Rightarrow> st\<lparr>trace := trace st @ [ConsoleError]\<rparr>
        | Some data \<Rightarrow>
            (case get_content data of
               None \<Rightarrow> st\<lparr>trace := trace st @ [ConsoleError]\<rparr>
             | Some Undefined \<Rightarrow> st
             | Some (Value c) \<Rightarrow>
                 if truthy c
                 then (case to_string c of
                         None \<Rightarrow> st\<lparr>trace := trace st @ [ConsoleError]\<rparr>
                       | Some text \<Rightarrow>
                           st\<lparr>fullContent := fullContent st @ text,
                              trace := trace st @ [OnChunk c]\<rparr>)
                 else st))"

text \<open>\<open>eventSource.onerror\<close>.\<close>

definition onerror :: "client \<Rightarrow> client" where
  "onerror st =
     st\<lparr>closed := True, trace := trace st @ [Close, OnError ''Stream connection error'']\<rparr>"

text \<open>The function \<open>generateContentStream\<close> returns, for the caller to cancel.\<close>

definition cancel :: "client \<Rightarrow> client" where
  "cancel st = st\<lparr>closed := True, trace := trace st @ [Close]\<rparr>"

text \<open>
  What reaches the client: a message with its data, an error of the connection, or the
  caller cancelling. An \<open>EventSource\<close> dispatches no event once \<open>close()\<close> has been
  called on it.
\<close>

datatype event = Message string | ErrorEvent | Cancel

fun dispatch :: "(string \<Rightarrow> json option) \<Rightarrow> client \<Rightarrow> event \<Rightarrow> client" where
  "dispatch parse st Cancel = cancel st"
| "dispatch parse st (Message d) = (if closed st then st else onmessage parse st d)"
| "dispatch parse st ErrorEvent = (if closed st then st else onerror st)"

text \<open>\<open>generateContentStream\<close> on the events of one stream.\<close>

definition generateContentStream :: "(string \<Rightarrow> json option) \<Rightarrow> event list \<Rightarrow> client" where
  "generateContentStream parse evs = foldl (dispatch parse) init evs"

section \<open>Notions the properties are stated with\<close>

text \<open>The callbacks in a trace, and the two that end a stream.\<close>

fun is_callback :: "action \<Rightarrow> bool" where
  "is_callback (OnChunk c) = True"
| "is_callback (OnComplete s) = True"
| "is_callback (OnError e) = True"
| "is_callback a = False"


definition callbacks :: "action list \<Rightarrow> action list" where
  "callbacks tr = filter is_callback tr"


text \<open>
  The content a frame bears: the \<open>content\<close> property of the object its data parses to,
  when there is one and it is not empty (not falsy).
\<close>

definition frame_content :: "(string \<Rightarrow> json option) \<Rightarrow> string \<Rightarrow> json option" where
  "frame_content parse d =
     (case parse d of
        Some (JObj kvs) \<Rightarrow>
          (case map_of kvs ''content'' of
             Some c \<Rightarrow> if truthy c then Some c else None
           | None \<Rightarrow> None)
      | _ \<Rightarrow> None)"


text \<open>
  The content of a frame together with the text it stands for, when it has one: every
  content has, except an object with an own \<open>toString\<close> property and an array that
  holds one.
\<close>

definition rendered_content ::
  "(string \<Rightarrow> json option) \<Rightarrow> string \<Rightarrow> (json \<times> string) option" where
  "rendered_content parse d =
     (case frame_content parse d of
        None \<Rightarrow> None
      | Some c \<Rightarrow> (case to_string c of None \<Rightarrow> None | Some text \<Rightarrow> Some (c, text)))"





text \<open>
  What a user of the client can observe of it: whether the source is closed, the content
  accumulated so far, and the callbacks made.
\<close>

definition observable :: "client \<Rightarrow> bool \<times> string \<times> action list" where
  "observable st = (closed st, fullContent st, callbacks (trace st))"

text \<open>
  What the idempotence of \<open>normalizeTone\<close> needs of the lower-case mapping: no mapping
  is empty; what a character other than the capital sigma maps to is no capital sigma
  and is mapped to itself, and so are the two small sigmas; code points stay code
  points; and a surrogate occurs in a mapping only as the mapping of itself.
\<close>

definition stable_lowercase :: "unicode \<Rightarrow> bool" where
  "stable_lowercase U =
     ((\<forall>c. lower_map U c \<noteq> []) \<and>
      (\<forall>c d. c \<noteq> 0x3A3 \<and> d \<in> set (lower_map U c) \<longrightarrow> d \<noteq> 0x3A3 \<and> lower_map U d = [d]) \<and>
      lower_map U 0x3C2 = [0x3C2] \<and> lower_map U 0x3C3 = [0x3C3] \<and>
      (\<forall>c d. c < 0x110000 \<and> d \<in> set (lower_map U c) \<longrightarrow> d < 0x110000) \<and>
      (\<forall>c d. d \<in> set (lower_map U c) \<and> 0xD800 \<le> d \<and> d \<le> 0xDFFF \<longrightarrow> lower_map U c = [c]))"

text \<open>Surrogate code points, and lists of code points that no encoding would merge.\<close>

definition high_cp :: "nat \<Rightarrow> bool" where
  "high_cp c = (0xD800 \<le> c \<and> c \<le> 0xDBFF)"

definition low_cp :: "nat \<Rightarrow> bool" where
  "low_cp c = (0xDC00 \<le> c \<and> c \<le> 0xDFFF)"

fun no_pair :: "nat list \<Rightarrow> bool" where
  "no_pair [] = True"
| "no_pair [c] = True"
| "no_pair (c # d # cs) = (\<not> (high_cp c \<and> low_cp d) \<and> no_pair (d # cs))"

text \<open>Trimming by any predicate, and white space as a code point.\<close>

definition trim_with :: "('a \<Rightarrow> bool) \<Rightarrow> 'a list \<Rightarrow> 'a list" where
  "trim_with Q xs = rev (dropWhile Q (rev (dropWhile Q xs)))"

definition white_space_cp :: "nat \<Rightarrow> bool" where
  "white_space_cp c = (c < 0x10000 \<and> white_space (of_nat c))"

text \<open>A run of decimal digits.\<close>

definition digits :: "string \<Rightarrow> bool" where
  "digits ds = (ds \<noteq> [] \<and> list_all is_digit ds)"

section \<open>Auxiliary facts\<close>

subsection \<open>Rounding to a double\<close>

lemma bit_length_bounds: "n \<noteq> 0 \<Longrightarrow> 2 ^ (bit_length n - 1) \<le> n \<and> n < 2 ^ bit_length n"
proof (induction n rule: bit_length.induct)
  case (1 n)
  show ?case
  proof (cases "n div 2 = 0")
    case True
    with 1 have "n = 1" by (cases n) auto
    then show ?thesis by (simp add: bit_length.simps)
  next
    case False
    with 1 have IH: "2 ^ (bit_length (n div 2) - 1) \<le> n div 2 \<and> n div 2 < 2 ^ bit_length (n div 2)" by simp
    have bl: "bit_length n = Suc (bit_length (n div 2))" using 1(2) by (subst bit_length.simps) simp
    have pos: "bit_length (n div 2) \<noteq> 0" using False by (subst bit_length.simps) simp
    then obtain k where k: "bit_length (n div 2) = Suc k" by (cases "bit_length (n div 2)") auto
    show ?thesis using IH bl k by auto
  qed
qed

lemma bit_length_eq: 
  assumes a: "2 ^ k \<le> n" and b: "n < 2 ^ Suc k" 
  shows "bit_length n = Suc k"
proof -
  have n0: "n \<noteq> 0" using a by (cases "n = 0") auto
  from bit_length_bounds[OF n0] have l: "2 ^ (bit_length n - 1) \<le> n" and u: "n < 2 ^ bit_length n" by auto
  have "(2::nat) ^ k < 2 ^ bit_length n" using a u by linarith
  then have 1: "k < bit_length n" by (rule power_less_imp_less_exp[rotated]) simp
  have "(2::nat) ^ (bit_length n - 1) < 2 ^ Suc k" using l b by linarith
  then have 2: "bit_length n - 1 < Suc k" by (rule power_less_imp_less_exp[rotated]) simp
  show ?thesis using 1 2 by linarith
qed

lemma round_double_exact: "n < 2 ^ 53 \<Longrightarrow> round_double n = Fin n"
  by (simp add: round_double_def)

lemma round_double_finite: "n < 2 ^ 1024 - 2 ^ 970 \<Longrightarrow> \<exists>m. round_double n = Fin m"
  by (simp add: round_double_def Let_def)

lemma round_double_le_pow:
  assumes "n < 2 ^ k" and "k \<le> 1023"
  shows "\<exists>m. round_double n = Fin m \<and> m \<le> 2 ^ k"
proof (cases "n < 2 ^ 53")
  case True
  then show ?thesis using assms(1) by (simp add: round_double_exact)
next
  case False
  then have n0: "n \<noteq> 0" by auto
  define L where "L = bit_length n"
  from bit_length_bounds[OF n0] have l: "2 ^ (L - 1) \<le> n" and u: "n < 2 ^ L"
    by (auto simp: L_def)
  have "(2::nat) ^ 53 < 2 ^ L" using False u by linarith
  then have L53: "53 < L" by (rule power_less_imp_less_exp[rotated]) simp
  have "(2::nat) ^ (L - 1) < 2 ^ k" using l assms(1) by linarith
  then have "L - 1 < k" by (rule power_less_imp_less_exp[rotated]) simp
  then have Lk: "L \<le> k" by linarith
  define e where "e = L - 53"
  have Le: "L = 53 + e" using L53 by (simp add: e_def)
  have "n < 2 ^ 53 * 2 ^ e" using u by (simp add: Le power_add)
  then have q: "n div 2 ^ e < 2 ^ 53" by (simp add: less_mult_imp_div_less)
  have "(2::nat) ^ k \<le> 2 ^ 1023" by (rule power_increasing) (use assms(2) in simp_all)
  then have nthr: "\<not> 2 ^ 1024 - 2 ^ 970 \<le> n" using assms(1) by simp
  define q' where "q' = (if 2 ^ (e - 1) < n mod 2 ^ e \<or> (n mod 2 ^ e = 2 ^ (e - 1) \<and> odd (n div 2 ^ e)) then n div 2 ^ e + 1 else n div 2 ^ e)"
  have rd: "round_double n = Fin (q' * 2 ^ e)"
    using False nthr by (simp add: round_double_def Let_def q'_def e_def L_def)
  have "q' \<le> 2 ^ 53" using q by (simp add: q'_def)
  then have "q' * 2 ^ e \<le> 2 ^ 53 * 2 ^ e" by (rule mult_le_mono1)
  also have "\<dots> = 2 ^ L" by (simp add: Le power_add)
  also have "\<dots> \<le> 2 ^ k" using Lk by (simp add: power_increasing)
  finally show ?thesis using rd by simp
qed

lemma js_ge_max_50: "js_ge (js_max (Fin 50) x) (Fin 50)"
  by (cases x) (auto simp: js_ge_def js_max_def)

subsection \<open>The range pattern and decimal values\<close>

lemma match_range_digits:
  assumes "digits a" "digits b"
  shows "match_range (a @ CHR ''-'' # b) = Some (a, b)"
proof -
  have a: "\<And>x. x \<in> set a \<Longrightarrow> is_digit x" and an: "a \<noteq> []" 
    using assms(1) by (auto simp: digits_def list_all_iff)
  have nd: "\<not> is_digit CHR ''-''" by (simp add: is_digit_def)
  have tw: "takeWhile is_digit (a @ CHR ''-'' # b) = a"
    using a nd by (simp add: takeWhile_append2)
  have dw: "dropWhile is_digit (a @ CHR ''-'' # b) = CHR ''-'' # b"
    using a nd by (simp add: dropWhile_append2)
  show ?thesis using assms(2) an by (simp add: match_range_def tw dw digits_def)
qed

lemma foldl_dec_zeros:
  "foldl (\<lambda>acc c. 10 * acc + digit_val c) acc (replicate k CHR ''0'') = acc * 10 ^ k"
  by (induction k arbitrary: acc) (simp_all add: digit_val_def)

lemma dec_value_one_zeros: "dec_value (CHR ''1'' # replicate k CHR ''0'') = 10 ^ k"
  by (simp add: dec_value_def foldl_dec_zeros) (simp add: digit_val_def)

lemma digits_one_zeros: "digits (CHR ''1'' # replicate k CHR ''0'')"
  by (simp add: digits_def is_digit_def list_all_iff)

section \<open>Word-count normalization\<close>

text \<open>
  C1 (as stated): for every range string \<open>min-max\<close> with \<open>50 \<le> min \<le> max\<close>,
  \<open>normalizeWordCount\<close> returns \<open>max(50, floor((min + max) / 2))\<close>. This fails once a
  bound is past \<open>2 ^ 53\<close>, where \<open>parseInt\<close> rounds: for \<open>50-9007199254740995\<close> the upper
  bound is read as 9007199254740996 and the result is 4503599627370523, one more than
  the midpoint 4503599627370522 of the range as written.
\<close>

theorem normalizeWordCount_midpoint_counterexample:
  "digits ''50'' \<and> digits ''9007199254740995'' \<and> 50 \<le> dec_value ''50'' \<and>
   dec_value ''50'' \<le> dec_value ''9007199254740995'' \<and>
   normalizeWordCount ''50-9007199254740995'' = Fin 4503599627370523 \<and>
   max 50 ((dec_value ''50'' + dec_value ''9007199254740995'') div 2) = 4503599627370522"
proof -
  have b1: "bit_length 9007199254740995 = Suc 53" by (rule bit_length_eq) simp_all
  have b2: "bit_length 9007199254741046 = Suc 53" by (rule bit_length_eq) simp_all
  have d: "dec_value ''50'' = 50" "dec_value ''9007199254740995'' = 9007199254740995"
    by (simp_all add: dec_value_def digit_val_def)
  have r1: "round_double 9007199254740995 = Fin 9007199254740996"
    using b1 by (simp add: round_double_def)
  have r2: "round_double 9007199254741046 = Fin 9007199254741046"
    using b2 by (simp add: round_double_def)
  have r0: "round_double 50 = Fin 50" by (simp add: round_double_exact)
  have m: "match_range ''50-9007199254740995'' = Some (''50'', ''9007199254740995'')"
    by (simp add: match_range_def is_digit_def)
  have "normalizeWordCount ''50-9007199254740995'' = Fin 4503599627370523"
    by (simp add: normalizeWordCount_def m parseInt10_def d r0 r1 r2 js_gt_def js_max_def)
  then show ?thesis by (simp add: d digits_def is_digit_def)
qed

text \<open>
  C1 (amended): for every range string \<open>min-max\<close> with \<open>50 \<le> min \<le> max\<close> and
  \<open>min + max < 2 ^ 53\<close> (both bounds and their sum are exact JavaScript numbers),
  \<open>normalizeWordCount\<close> returns \<open>max(50, floor((min + max) / 2))\<close>; for \<open>50-300\<close> that is
  175.
\<close>

theorem normalizeWordCount_midpoint:
  assumes "digits a" and "digits b"
    and "50 \<le> dec_value a" and "dec_value a \<le> dec_value b"
    and "dec_value a + dec_value b < 2 ^ 53"
  shows "normalizeWordCount (a @ ''-'' @ b) = Fin (max 50 ((dec_value a + dec_value b) div 2))"
proof -
  have ea: "parseInt10 a = Fin (dec_value a)" and eb: "parseInt10 b = Fin (dec_value b)"
    using assms(5) by (simp_all add: parseInt10_def round_double_exact)
  have sum: "round_double (dec_value a + dec_value b) = Fin (dec_value a + dec_value b)"
    using assms(5) by (simp add: round_double_exact)
  show ?thesis
    using assms(3,4)
    by (simp add: normalizeWordCount_def match_range_digits[OF assms(1,2)] ea eb sum js_gt_def js_max_def max_def Let_def)
qed

theorem normalizeWordCount_midpoint_witness:
  "digits ''50'' \<and> digits ''300'' \<and> 50 \<le> dec_value ''50'' \<and>
   dec_value ''50'' \<le> dec_value ''300'' \<and> dec_value ''50'' + dec_value ''300'' < 2 ^ 53 \<and>
   normalizeWordCount ''50-300'' = Fin 175"
  using normalizeWordCount_midpoint[of "''50''" "''300''"]
  by (simp add: digits_def is_digit_def dec_value_def digit_val_def)

text \<open>
  C2: every range whose minimum is below 50 is rejected by validation: the schema
  reports the issue \<open>MinBelow50\<close>, and no word target is computed for it.
\<close>

theorem submit_rejects_min_below_50:
  assumes "digits a" and "digits b" and "dec_value a < 50"
  shows "submit_word_count (a @ ''-'' @ b) = Inl [MinBelow50]"
proof -
  have m: "match_range (a @ CHR ''-'' # b) = Some (a, b)"
    using assms(1,2) by (rule match_range_digits)
  have p: "parseInt10 a = Fin (dec_value a)"
    using assms(3) by (simp add: parseInt10_def round_double_exact)
  have "\<not> refine_min (a @ CHR ''-'' # b)"
    using assms(3) by (simp add: refine_min_def m p js_ge_def)
  then show ?thesis
    by (simp add: submit_word_count_def word_count_schema_def regex_range_def m)
qed

theorem submit_rejects_min_below_50_witness:
  "digits ''10'' \<and> digits ''40'' \<and> dec_value ''10'' < 50 \<and>
   submit_word_count ''10-40'' = Inl [MinBelow50]"
  using submit_rejects_min_below_50[of "''10''" "''40''"]
  by (simp add: digits_def is_digit_def dec_value_def digit_val_def)

text \<open>
  C3 (as stated): every range with \<open>min > max\<close> is rejected by validation rather than
  normalized to a target. The schema only checks the format and the minimum, so
  \<open>300-100\<close> is accepted and \<open>normalizeWordCount\<close> gives it the default target 50.
\<close>

theorem submit_min_above_max_counterexample:
  "digits ''300'' \<and> digits ''100'' \<and> dec_value ''100'' < dec_value ''300'' \<and>
   word_count_schema ''300-100'' = Inr ''300-100'' \<and>
   submit_word_count ''300-100'' = Inr (Fin 50)"
  by (simp add: submit_word_count_def word_count_schema_def regex_range_def refine_min_def
      normalizeWordCount_def match_range_def is_digit_def digits_def parseInt10_def
      round_double_def dec_value_def digit_val_def js_ge_def js_gt_def)

text \<open>
  C3 (amended): a range with \<open>min > max\<close> and \<open>50 \<le> min < 2 ^ 53\<close> passes the checks of
  the \<open>word_count\<close> field, and \<open>normalizeWordCount\<close> falls back to the default target 50
  for it.
\<close>

theorem submit_min_above_max_default:
  assumes "digits a" and "digits b"
    and "50 \<le> dec_value a" and "dec_value b < dec_value a" and "dec_value a < 2 ^ 53"
  shows "submit_word_count (a @ ''-'' @ b) = Inr (Fin 50)"
proof -
  have m: "match_range (a @ CHR ''-'' # b) = Some (a, b)"
    using assms(1,2) by (rule match_range_digits)
  have pa: "parseInt10 a = Fin (dec_value a)"
    using assms(5) by (simp add: parseInt10_def round_double_exact)
  have pb: "parseInt10 b = Fin (dec_value b)"
    using assms(4,5) by (simp add: parseInt10_def round_double_exact)
  have ok: "word_count_schema (a @ CHR ''-'' # b) = Inr (a @ CHR ''-'' # b)"
    using assms(3) by (auto simp: word_count_schema_def regex_range_def refine_min_def m pa js_ge_def)
  have "normalizeWordCount (a @ CHR ''-'' # b) = Fin 50"
    using assms(4) by (simp add: normalizeWordCount_def m pa pb js_gt_def)
  then show ?thesis by (simp add: submit_word_count_def ok)
qed

theorem submit_min_above_max_default_witness:
  "digits ''300'' \<and> digits ''100'' \<and> 50 \<le> dec_value ''300'' \<and>
   dec_value ''100'' < dec_value ''300'' \<and> dec_value ''300'' < 2 ^ 53 \<and>
   submit_word_count ''300-100'' = Inr (Fin 50)"
  using submit_min_above_max_default[of "''300''" "''100''"]
  by (simp add: digits_def is_digit_def dec_value_def digit_val_def)

text \<open>
  C8 (as stated): for every input string \<open>normalizeWordCount\<close> returns an integer that is
  at least 50. A bound of 310 digits parses to \<open>+Infinity\<close>, and so does the result,
  which is not an integer.
\<close>

theorem normalizeWordCount_integer_counterexample:
  "normalizeWordCount ((CHR ''1'' # replicate 309 CHR ''0'') @ ''-'' @ (CHR ''1'' # replicate 309 CHR ''0'')) = PosInf \<and>
   \<not> is_integer (normalizeWordCount ((CHR ''1'' # replicate 309 CHR ''0'') @ ''-'' @ (CHR ''1'' # replicate 309 CHR ''0'')))"
proof -
  define big where "big = CHR ''1'' # replicate 309 CHR ''0''"
  have m: "match_range (big @ CHR ''-'' # big) = Some (big, big)"
    by (rule match_range_digits) (simp_all add: big_def digits_one_zeros)
  have p: "parseInt10 big = PosInf"
    by (simp add: parseInt10_def big_def dec_value_one_zeros round_double_def)
  have "normalizeWordCount (big @ ''-'' @ big) = PosInf"
    using m p by (simp add: normalizeWordCount_def js_gt_def js_max_def)
  then show ?thesis by (simp add: big_def)
qed

text \<open>
  C8 (amended): for every input string \<open>normalizeWordCount\<close> returns a number that is at
  least 50 (the model has no failing branch: nothing in the function throws on a
  string). On a string that does not match the pattern the result is 50, and on one
  that matches it is an integer whenever the upper bound is below \<open>2 ^ 1022\<close>.
\<close>

theorem normalizeWordCount_at_least_50:
  "js_ge (normalizeWordCount s) (Fin 50) \<and>
   (case match_range s of
      None \<Rightarrow> normalizeWordCount s = Fin 50
    | Some (a, b) \<Rightarrow> dec_value b < 2 ^ 1022 \<longrightarrow> is_integer (normalizeWordCount s))"
proof (cases "match_range s")
  case None
  then show ?thesis by (simp add: normalizeWordCount_def js_ge_def)
next
  case (Some p)
  obtain a b where p: "p = (a, b)" by (cases p)
  define mn where "mn = parseInt10 a"
  define mx where "mx = parseInt10 b"
  show ?thesis
  proof (cases "js_lt mn (Fin 50) \<or> js_lt mx (Fin 50) \<or> js_gt mn mx")
    case True
    then have "normalizeWordCount s = Fin 50"
      using Some p by (simp add: normalizeWordCount_def Let_def mn_def mx_def)
    then show ?thesis using Some p by (simp add: js_ge_def)
  next
    case False
    then have nw: "normalizeWordCount s = js_max (Fin 50) (floor_half (js_add mn mx))"
      using Some p by (simp add: normalizeWordCount_def Let_def mn_def mx_def)
    have int: "is_integer (normalizeWordCount s)" if small: "dec_value b < 2 ^ 1022"
    proof -
      from round_double_le_pow[OF small] obtain mb where mb: "mx = Fin mb" "mb \<le> 2 ^ 1022"
        by (auto simp: mx_def parseInt10_def)
      from False mb obtain ma where ma: "mn = Fin ma" "ma \<le> mb"
        by (cases mn) (auto simp: js_gt_def)
      have "ma + mb \<le> 2 ^ 1022 + 2 ^ 1022" using ma(2) mb(2) by linarith
      then have "ma + mb < 2 ^ 1024 - 2 ^ 970" by simp
      from round_double_finite[OF this] obtain m where "round_double (ma + mb) = Fin m" ..
      then show ?thesis using nw ma mb by (simp add: js_max_def)
    qed
    show ?thesis using Some p int nw by (simp add: js_ge_max_50)
  qed
qed

theorem normalizeWordCount_at_least_50_witness:
  "js_ge (normalizeWordCount ''50-300'') (Fin 50) \<and> dec_value ''300'' < 2 ^ 1022 \<and>
   is_integer (normalizeWordCount ''50-300'') \<and> normalizeWordCount ''abc'' = Fin 50"
  using normalizeWordCount_at_least_50[of "''50-300''"] normalizeWordCount_at_least_50[of "''abc''"]
  by (simp add: match_range_def is_digit_def dec_value_def digit_val_def)

section \<open>Tone\<close>

lemma normalizeTone_Professional: "normalizeTone '' Professional '' = ''professional''"
  by code_simp

lemma tones_normalized: "t \<in> set tones \<Longrightarrow> normalizeTone t = t"
  by (auto simp: tones_def normalizeTone_def trim_def toLowerCase_def to_lower_char_def is_white_space_def)

text \<open>
  C4 (as stated): validation first normalizes the tone to lower-cased, trimmed form and
  then accepts it if and only if the normalized form is in the enumeration, so that
  \<open>" Professional "\<close> is accepted. The schema is a plain \<open>z.enum\<close> and \<open>normalizeTone\<close> is
  not applied by it: \<open>" Professional "\<close> is rejected although its normalized form is a
  member.
\<close>

theorem tone_schema_normalizes_counterexample:
  "normalizeTone '' Professional '' = ''professional'' \<and> ''professional'' \<in> set tones \<and>
   tone_schema '' Professional '' = Inl [InvalidTone]"
  by (simp add: normalizeTone_Professional tones_def tone_schema_def)

text \<open>
  C4 (amended): validation accepts a tone if and only if the string itself, with no
  normalization, is one of \<open>professional\<close>, \<open>casual\<close>, \<open>friendly\<close>, \<open>formal\<close>, \<open>engaging\<close>,
  \<open>persuasive\<close>, and reports an invalid tone otherwise; every accepted tone is already
  in normalized form (\<open>normalizeTone\<close> leaves it unchanged).
\<close>

theorem tone_schema_exact:
  "(tone_schema t = Inr t \<longleftrightarrow>
      t \<in> {''professional'', ''casual'', ''friendly'', ''formal'', ''engaging'', ''persuasive''}) \<and>
   (tone_schema t \<noteq> Inr t \<longrightarrow> tone_schema t = Inl [InvalidTone]) \<and>
   (tone_schema t = Inr t \<longrightarrow> normalizeTone t = t)"
  using tones_normalized[of t] by (auto simp: tone_schema_def tones_def)

theorem tone_schema_exact_witness:
  "tone_schema ''professional'' = Inr ''professional'' \<and>
   normalizeTone ''professional'' = ''professional'' \<and>
   tone_schema ''Professional'' \<noteq> Inr ''Professional'' \<and>
   tone_schema ''Professional'' = Inl [InvalidTone]"
  using tone_schema_exact[of "''professional''"] tone_schema_exact[of "''Professional''"]
  by simp

subsection \<open>Code points and code units\<close>

lemma unat_unit: "n < 65536 \<Longrightarrow> unat (of_nat n :: 16 word) = n"
  by (simp add: unat_of_nat)

lemma unat_lt: "unat (u :: 16 word) < 65536"
  using unsigned_less[of u, where 'a=nat] by simp

lemma code_units_small:
  "c < 0x10000 \<Longrightarrow> code_units c = [of_nat c]"
  by (simp add: code_units_def)

lemma code_units_large:
  assumes "0x10000 \<le> c" "c < 0x110000"
  shows "\<exists>h l. code_units c = [h, l] \<and> is_high h \<and> is_low l \<and>
           0x10000 + (unat h - 0xD800) * 0x400 + (unat l - 0xDC00) = c"
proof -
  define k where "k = c - 0x10000"
  have k: "k < 0x100000" using assms by (simp add: k_def)
  have hq: "k div 0x400 < 0x400" using k by simp
  have lq: "k mod 0x400 < 0x400" by simp
  define h :: "16 word" where "h = of_nat (0xD800 + k div 0x400)"
  define l :: "16 word" where "l = of_nat (0xDC00 + k mod 0x400)"
  have uh: "unat h = 0xD800 + k div 0x400"
    unfolding h_def using hq by (intro unat_unit) simp
  have ul: "unat l = 0xDC00 + k mod 0x400"
    unfolding l_def using lq by (intro unat_unit) simp
  have cu: "code_units c = [h, l]"
    using assms(1) unfolding code_units_def h_def l_def k_def by simp
  have "0x10000 + (k div 0x400) * 0x400 + k mod 0x400 = c"
    using assms by (simp add: k_def)
  then have "0x10000 + (unat h - 0xD800) * 0x400 + (unat l - 0xDC00) = c"
    by (simp add: uh ul)
  moreover have "is_high h" using hq by (simp add: is_high_def uh)
  moreover have "is_low l" using lq by (simp add: is_low_def ul)
  ultimately show ?thesis using cu by blast
qed

lemma code_points_roundtrip:
  assumes "\<forall>c\<in>set cps. c < 0x110000" and "no_pair cps"
  shows "code_points (from_code_points cps) = cps"
  using assms
proof (induction cps rule: no_pair.induct)
  case 1
  then show ?case by (simp add: from_code_points_def)
next
  case (2 c)
  show ?case
  proof (cases "c < 0x10000")
    case True
    then show ?thesis by (simp add: from_code_points_def code_units_small unat_unit)
  next
    case False
    with 2 obtain h l where "code_units c = [h, l]" "is_high h" "is_low l"
      "0x10000 + (unat h - 0xD800) * 0x400 + (unat l - 0xDC00) = c"
      using code_units_large[of c] by auto
    then show ?thesis by (simp add: from_code_points_def)
  qed
next
  case (3 c d cs)
  then have IH: "code_points (from_code_points (d # cs)) = d # cs" by simp
  from 3 have c: "c < 0x110000" and d: "d < 0x110000" and np: "\<not> (high_cp c \<and> low_cp d)" by auto
  obtain v vs where v: "from_code_points (d # cs) = v # vs" and vlow: "is_low v \<Longrightarrow> low_cp d"
  proof (cases "d < 0x10000")
    case True
    then have "from_code_points (d # cs) = of_nat d # from_code_points cs"
      by (simp add: from_code_points_def code_units_small)
    moreover have "is_low (of_nat d :: 16 word) \<Longrightarrow> low_cp d"
      using True by (simp add: is_low_def low_cp_def unat_unit)
    ultimately show ?thesis using that by blast
  next
    case False
    with d obtain h l where hl: "code_units d = [h, l]" "is_high h"
      using code_units_large[of d] by auto
    then have "from_code_points (d # cs) = h # l # from_code_points cs"
      by (simp add: from_code_points_def)
    moreover have "\<not> is_low h" using hl(2) by (simp add: is_high_def is_low_def)
    ultimately show ?thesis using that by blast
  qed
  show ?case
  proof (cases "c < 0x10000")
    case True
    have hc: "is_high (of_nat c :: 16 word) \<Longrightarrow> high_cp c"
      using True by (simp add: is_high_def high_cp_def unat_unit)
    have "from_code_points (c # d # cs) = of_nat c # v # vs"
      using True v by (simp add: from_code_points_def code_units_small)
    moreover have "\<not> (is_high (of_nat c :: 16 word) \<and> is_low v)" using hc vlow np by blast
    ultimately show ?thesis using IH v True by (simp add: unat_unit)
  next
    case False
    with c obtain h l where hl: "code_units c = [h, l]" "is_high h" "is_low l"
      "0x10000 + (unat h - 0xD800) * 0x400 + (unat l - 0xDC00) = c"
      using code_units_large[of c] by auto
    then have "from_code_points (c # d # cs) = h # l # from_code_points (d # cs)"
      by (simp add: from_code_points_def)
    then show ?thesis using hl IH by simp
  qed
qed

lemma code_points_bound: "\<forall>c\<in>set (code_points s). c < 0x110000"
proof (induction s rule: code_points.induct)
  case 1
  then show ?case by simp
next
  case (2 u)
  then show ?case using unat_lt[of u] by simp
next
  case (3 u v us)
  have "0x10000 + (unat u - 0xD800) * 0x400 + (unat v - 0xDC00) < (0x110000::nat)"
    if "is_high u" "is_low v"
    using that unfolding is_high_def is_low_def by linarith
  then show ?case using 3 unat_lt[of u] by auto
qed

lemma code_points_hd_not_low:
  "\<not> is_low v \<Longrightarrow> code_points (v # us) = c # cs \<Longrightarrow> \<not> low_cp c"
  by (cases us) (auto simp: is_low_def low_cp_def is_high_def split: if_splits)

lemma code_points_no_pair: "no_pair (code_points s)"
proof (induction s rule: code_points.induct)
  case 1
  then show ?case by simp
next
  case (2 u)
  then show ?case by simp
next
  case (3 u v us)
  show ?case
  proof (cases "is_high u \<and> is_low v")
    case True
    then have np: "no_pair (code_points us)" using 3 by simp
    have "\<not> high_cp (0x10000 + (unat u - 0xD800) * 0x400 + (unat v - 0xDC00))"
      by (simp add: high_cp_def)
    then show ?thesis using True np by (cases "code_points us") simp_all
  next
    case False
    then have np: "no_pair (code_points (v # us))" using 3 by simp
    have "code_points (v # us) \<noteq> []" by (cases us) simp_all
    then obtain c cs where ccs: "code_points (v # us) = c # cs"
      by (cases "code_points (v # us)") simp_all
    have "\<not> (high_cp (unat u) \<and> low_cp c)"
    proof
      assume a: "high_cp (unat u) \<and> low_cp c"
      then have "is_high u" by (simp add: is_high_def high_cp_def)
      with False have "\<not> is_low v" by simp
      from code_points_hd_not_low[OF this ccs] a show False by simp
    qed
    moreover have "code_points (u # v # us) = unat u # c # cs"
      using False ccs by auto
    ultimately show ?thesis using np ccs by simp
  qed
qed

subsection \<open>Lower case\<close>

lemma to_lowercase_Cons:
  "to_lowercase U before (c # after) =
     lowercase_mapping U before c after @ to_lowercase U (c # before) after"
  by simp

lemma stable_nonempty: "stable_lowercase U \<Longrightarrow> lower_map U c \<noteq> []"
  unfolding stable_lowercase_def by blast

lemma stable_image:
  "stable_lowercase U \<Longrightarrow> c \<noteq> 0x3A3 \<Longrightarrow> d \<in> set (lower_map U c) \<Longrightarrow>
   d \<noteq> 0x3A3 \<and> lower_map U d = [d]"
  unfolding stable_lowercase_def by blast

lemma stable_sigmas:
  "stable_lowercase U \<Longrightarrow> lower_map U 0x3C2 = [0x3C2] \<and> lower_map U 0x3C3 = [0x3C3]"
  unfolding stable_lowercase_def by blast

lemma stable_bound:
  "stable_lowercase U \<Longrightarrow> c < 0x110000 \<Longrightarrow> d \<in> set (lower_map U c) \<Longrightarrow> d < 0x110000"
  unfolding stable_lowercase_def by blast

lemma stable_surrogate:
  "stable_lowercase U \<Longrightarrow> d \<in> set (lower_map U c) \<Longrightarrow> 0xD800 \<le> d \<Longrightarrow> d \<le> 0xDFFF \<Longrightarrow>
   lower_map U c = [c]"
  unfolding stable_lowercase_def by blast

lemma image_cases:
  "lowercase_mapping U before c after = [0x3C2] \<and> c = 0x3A3 \<or>
   lowercase_mapping U before c after = [0x3C3] \<and> c = 0x3A3 \<or>
   lowercase_mapping U before c after = lower_map U c \<and> c \<noteq> 0x3A3"
  by (simp add: lowercase_mapping_def)

lemma image_nonempty: "stable_lowercase U \<Longrightarrow> lowercase_mapping U before c after \<noteq> []"
  using image_cases[of U before c after] stable_nonempty[of U c] by auto

lemma image_stable:
  assumes "stable_lowercase U" and "d \<in> set (lowercase_mapping U before c after)"
  shows "d \<noteq> 0x3A3 \<and> lower_map U d = [d]"
proof -
  consider "lowercase_mapping U before c after = [0x3C2]" | "lowercase_mapping U before c after = [0x3C3]"
    | "lowercase_mapping U before c after = lower_map U c" "c \<noteq> 0x3A3"
    using image_cases[of U before c after] by blast
  then show ?thesis
  proof cases
    case 1
    with assms(2) have "d = 0x3C2" by simp
    then show ?thesis using stable_sigmas[OF assms(1)] by simp
  next
    case 2
    with assms(2) have "d = 0x3C3" by simp
    then show ?thesis using stable_sigmas[OF assms(1)] by simp
  next
    case 3
    then show ?thesis using stable_image[OF assms(1), of c d] assms(2) by simp
  qed
qed

lemma image_bound:
  assumes "stable_lowercase U" and "c < 0x110000" and "d \<in> set (lowercase_mapping U before c after)"
  shows "d < 0x110000"
proof -
  consider "lowercase_mapping U before c after = [0x3C2]" | "lowercase_mapping U before c after = [0x3C3]"
    | "lowercase_mapping U before c after = lower_map U c" "c \<noteq> 0x3A3"
    using image_cases[of U before c after] by blast
  then show ?thesis
  proof cases
    case 1
    with assms(3) show ?thesis by simp
  next
    case 2
    with assms(3) show ?thesis by simp
  next
    case 3
    then show ?thesis using stable_bound[OF assms(1,2), of d] assms(3) by simp
  qed
qed

lemma image_surrogate:
  assumes "stable_lowercase U" and "d \<in> set (lowercase_mapping U before c after)"
    and "high_cp d \<or> low_cp d"
  shows "lowercase_mapping U before c after = [c]"
proof -
  have s: "0xD800 \<le> d" "d \<le> 0xDFFF"
    using assms(3) by (auto simp: high_cp_def low_cp_def)
  consider "lowercase_mapping U before c after = [0x3C2]" | "lowercase_mapping U before c after = [0x3C3]"
    | "lowercase_mapping U before c after = lower_map U c" "c \<noteq> 0x3A3"
    using image_cases[of U before c after] by blast
  then show ?thesis
  proof cases
    case 1
    with assms(2) s show ?thesis by simp
  next
    case 2
    with assms(2) s show ?thesis by simp
  next
    case 3
    then show ?thesis using stable_surrogate[OF assms(1) _ s, of c] assms(2) by simp
  qed
qed

lemma no_pair_append:
  "no_pair (xs @ ys) \<longleftrightarrow>
     no_pair xs \<and> no_pair ys \<and> (xs \<noteq> [] \<and> ys \<noteq> [] \<longrightarrow> \<not> (high_cp (last xs) \<and> low_cp (hd ys)))"
proof (induction xs rule: no_pair.induct)
  case 1
  then show ?case by simp
next
  case (2 c)
  then show ?case by (cases ys) auto
next
  case (3 c d cs)
  then show ?case by auto
qed

lemma no_pair_image:
  assumes "stable_lowercase U"
  shows "no_pair (lowercase_mapping U before c after)"
proof (cases "\<exists>d\<in>set (lowercase_mapping U before c after). high_cp d \<or> low_cp d")
  case True
  then show ?thesis using image_surrogate[OF assms] by force
next
  case False
  have "\<forall>d\<in>set xs. \<not> high_cp d \<Longrightarrow> no_pair xs" for xs
    by (induction xs rule: no_pair.induct) simp_all
  then show ?thesis using False by blast
qed

lemma to_lowercase_stable:
  assumes "stable_lowercase U"
  shows "\<forall>d\<in>set (to_lowercase U before cps). d \<noteq> 0x3A3 \<and> lower_map U d = [d]"
proof (induction cps arbitrary: before)
  case Nil
  then show ?case by simp
next
  case (Cons c cps)
  show ?case
    using image_stable[OF assms, of _ before c cps] Cons.IH[of "c # before"]
    by (auto simp: to_lowercase_Cons)
qed

lemma to_lowercase_bound:
  assumes "stable_lowercase U" and "\<forall>c\<in>set cps. c < 0x110000"
  shows "\<forall>d\<in>set (to_lowercase U before cps). d < 0x110000"
  using assms(2)
proof (induction cps arbitrary: before)
  case Nil
  then show ?case by simp
next
  case (Cons c cps)
  from Cons.prems have c: "c < 0x110000" and r: "\<forall>c\<in>set cps. c < 0x110000"
    by simp_all
  show ?case
  proof
    fix d
    assume "d \<in> set (to_lowercase U before (c # cps))"
    then consider "d \<in> set (lowercase_mapping U before c cps)"
      | "d \<in> set (to_lowercase U (c # before) cps)"
      unfolding to_lowercase_Cons by auto
    then show "d < 0x110000"
    proof cases
      case 1
      then show ?thesis by (rule image_bound[OF assms(1) c])
    next
      case 2
      then show ?thesis using Cons.IH[OF r] by blast
    qed
  qed
qed

lemma to_lowercase_no_pair:
  assumes "stable_lowercase U" and "no_pair cps"
  shows "no_pair (to_lowercase U before cps)"
  using assms(2)
proof (induction cps arbitrary: before rule: no_pair.induct)
  case 1
  then show ?case by simp
next
  case (2 c)
  then show ?case using no_pair_image[OF assms(1), of before c "[]"]
    by (simp add: to_lowercase_Cons)
next
  case (3 c d cs)
  let ?ic = "lowercase_mapping U before c (d # cs)"
  let ?id = "lowercase_mapping U (c # before) d cs"
  let ?rest = "to_lowercase U (c # before) (d # cs)"
  have IH: "no_pair ?rest" using 3 by simp
  have rest: "?rest = ?id @ to_lowercase U (d # c # before) cs" by (rule to_lowercase_Cons)
  have idn: "?id \<noteq> []" and icn: "?ic \<noteq> []" using image_nonempty[OF assms(1)] by auto
  have hd: "hd ?rest = hd ?id" unfolding rest using idn by simp
  have "\<not> (high_cp (last ?ic) \<and> low_cp (hd ?rest))"
  proof
    assume a: "high_cp (last ?ic) \<and> low_cp (hd ?rest)"
    have "last ?ic \<in> set ?ic" using icn by simp
    with a have c: "?ic = [c]" using image_surrogate[OF assms(1)] by blast
    have "hd ?id \<in> set ?id" using idn by simp
    with a hd have d: "?id = [d]" using image_surrogate[OF assms(1)] by metis
    from a c d hd have "high_cp c \<and> low_cp d" by simp
    with 3(2) show False by simp
  qed
  moreover have "?rest \<noteq> []" unfolding rest using idn by simp
  ultimately show ?case
    using IH no_pair_image[OF assms(1), of before c "d # cs"] icn
    by (simp add: to_lowercase_Cons[of U before c] no_pair_append)
qed

lemma to_lowercase_fixed:
  assumes "\<forall>d\<in>set cps. d \<noteq> 0x3A3 \<and> lower_map U d = [d]"
  shows "to_lowercase U before cps = cps"
  using assms by (induction cps arbitrary: before) (simp_all add: lowercase_mapping_def)

subsection \<open>Trimming\<close>

lemma trim_utf16_trim_with: "trim_utf16 s = trim_with white_space s"
  by (simp add: trim_utf16_def trim_with_def)

lemma trim_with_idem: "trim_with Q (trim_with Q s) = trim_with Q s"
proof -
  define y where "y = dropWhile Q s"
  define z where "z = dropWhile Q (rev y)"
  have t: "trim_with Q s = rev z" by (simp add: trim_with_def y_def z_def)
  have "dropWhile Q (rev z) = rev z"
  proof (cases "z = []")
    case True
    then show ?thesis by simp
  next
    case False
    then have yne: "y \<noteq> []" by (auto simp: z_def)
    from False obtain x where "x \<in> set (rev y)" and "\<not> Q x"
      unfolding z_def by auto
    then have "last z = last (rev y)" unfolding z_def by (rule dropWhile_last)
    then have "hd (rev z) = hd y" using False yne by (simp add: hd_rev last_rev)
    moreover have "\<not> Q (hd y)" using yne unfolding y_def by (rule hd_dropWhile)
    ultimately show ?thesis by (simp add: dropWhile_eq_self_iff)
  qed
  moreover have "dropWhile Q z = z" by (simp add: z_def)
  ultimately have "trim_with Q (rev z) = rev z" by (simp add: trim_with_def)
  then show ?thesis by (simp add: t)
qed

lemma trim_with_decomp: "\<exists>a b. xs = a @ trim_with Q xs @ b"
proof -
  define y where "y = dropWhile Q xs"
  have 1: "xs = takeWhile Q xs @ y" by (simp add: y_def)
  have "rev y = takeWhile Q (rev y) @ dropWhile Q (rev y)" by simp
  then have "y = rev (dropWhile Q (rev y)) @ rev (takeWhile Q (rev y))"
    by (metis rev_append rev_rev_ident)
  then have "xs = takeWhile Q xs @ trim_with Q xs @ rev (takeWhile Q (rev y))"
    using 1 by (simp add: trim_with_def y_def)
  then show ?thesis by blast
qed

lemma trim_with_subset: "set (trim_with Q xs) \<subseteq> set xs"
  using trim_with_decomp[of xs Q] by (metis Un_iff set_append subsetI)

lemma trim_with_no_pair: "no_pair xs \<Longrightarrow> no_pair (trim_with Q xs)"
  using trim_with_decomp[of xs Q] by (metis no_pair_append)

lemma dropWhile_concat_map:
  assumes "\<forall>c\<in>set cs. enc c \<noteq> [] \<and> (Q c \<longrightarrow> (\<forall>w\<in>set (enc c). P w)) \<and>
             (\<not> Q c \<longrightarrow> \<not> P (hd (enc c)))"
  shows "dropWhile P (concat (map enc cs)) = concat (map enc (dropWhile Q cs))"
  using assms
proof (induction cs)
  case Nil
  then show ?case by simp
next
  case (Cons c cs)
  show ?case
  proof (cases "Q c")
    case True
    then have "\<forall>w\<in>set (enc c). P w" using Cons.prems by simp
    then have "dropWhile P (enc c @ concat (map enc cs)) = dropWhile P (concat (map enc cs))"
      by (simp add: dropWhile_append2)
    then show ?thesis using True Cons by simp
  next
    case False
    then have ne: "enc c \<noteq> []" and h: "\<not> P (hd (enc c))" using Cons.prems by simp_all
    then obtain x xs where e: "enc c = x # xs" by (cases "enc c") simp_all
    then show ?thesis using False h by simp
  qed
qed

lemma code_units_white_space:
  assumes "c < 0x110000"
  shows "code_units c \<noteq> [] \<and> (white_space_cp c \<longrightarrow> (\<forall>w\<in>set (code_units c). white_space w)) \<and>
         (\<not> white_space_cp c \<longrightarrow>
            \<not> white_space (hd (code_units c)) \<and> \<not> white_space (last (code_units c)))"
proof (cases "c < 0x10000")
  case True
  then show ?thesis by (simp add: code_units_small white_space_cp_def)
next
  case False
  with assms obtain h l where hl: "code_units c = [h, l]" "is_high h" "is_low l"
    using code_units_large[of c] by auto
  have "\<not> white_space h" using hl(2) by (auto simp: white_space_def is_high_def)
  moreover have "\<not> white_space l" using hl(3) by (auto simp: white_space_def is_low_def)
  ultimately show ?thesis using hl(1) False by (simp add: white_space_cp_def)
qed

lemma trim_from_code_points:
  assumes "\<forall>c\<in>set cps. c < 0x110000"
  shows "trim_utf16 (from_code_points cps) = from_code_points (trim_with white_space_cp cps)"
proof -
  define L1 where "L1 = dropWhile white_space_cp cps"
  have s1: "set L1 \<subseteq> set cps" unfolding L1_def by (auto dest: set_dropWhileD)
  have 1: "dropWhile white_space (concat (map code_units cps)) = concat (map code_units L1)"
    unfolding L1_def
    by (rule dropWhile_concat_map) (use assms code_units_white_space in blast)
  have 2: "rev (concat (map code_units L1)) = concat (map (rev \<circ> code_units) (rev L1))"
    by (simp add: rev_concat rev_map)
  have 3: "dropWhile white_space (concat (map (rev \<circ> code_units) (rev L1))) =
           concat (map (rev \<circ> code_units) (dropWhile white_space_cp (rev L1)))"
  proof (rule dropWhile_concat_map, rule ballI)
    fix c assume "c \<in> set (rev L1)"
    then have "c < 0x110000" using s1 assms by auto
    from code_units_white_space[OF this]
    show "(rev \<circ> code_units) c \<noteq> [] \<and>
          (white_space_cp c \<longrightarrow> (\<forall>w\<in>set ((rev \<circ> code_units) c). white_space w)) \<and>
          (\<not> white_space_cp c \<longrightarrow> \<not> white_space (hd ((rev \<circ> code_units) c)))"
      by (simp add: hd_rev)
  qed
  have 4: "rev (concat (map (rev \<circ> code_units) ys)) = concat (map code_units (rev ys))" for ys
    by (simp add: rev_concat rev_map comp_def)
  have "trim_utf16 (from_code_points cps) =
      rev (dropWhile white_space (rev (concat (map code_units L1))))"
    by (simp add: trim_utf16_def from_code_points_def 1)
  also have "\<dots> = rev (concat (map (rev \<circ> code_units) (dropWhile white_space_cp (rev L1))))"
    by (simp only: 2 3)
  also have "\<dots> = concat (map code_units (rev (dropWhile white_space_cp (rev L1))))"
    by (rule 4)
  finally show ?thesis by (simp add: from_code_points_def trim_with_def L1_def)
qed

subsection \<open>Code units below 256\<close>

lemma of_char_le: "(of_char c :: nat) \<le> 255"
  using nat_of_char_less_256[of c] by linarith

lemma of_char_to_lower: "(of_char (to_lower_char c) :: nat) =
    (let n = of_char c in if (65 \<le> n \<and> n \<le> 90) \<or> (192 \<le> n \<and> n \<le> 222 \<and> n \<noteq> 215) then n + 32 else n)"
  by (auto simp: to_lower_char_def Let_def)

lemma lower_map_latin1:
  "lower_map latin1 c =
     [if (65 \<le> c \<and> c \<le> 90) \<or> (192 \<le> c \<and> c \<le> 222 \<and> c \<noteq> 215) then c + 32 else c]"
proof (cases "c < 256")
  case True
  then have "of_char (char_of c) = c" by simp
  then show ?thesis using True by (simp add: latin1_def of_char_to_lower Let_def)
next
  case False
  then show ?thesis by (simp add: latin1_def)
qed

lemma stable_latin1: "stable_lowercase latin1"
  unfolding stable_lowercase_def lower_map_latin1 by (auto split: if_splits)


lemma unat_unit_char: "unat (unit c) = of_char c"
  unfolding unit_def using of_char_le[of c] by (intro unat_unit) linarith

lemma code_points_units: "code_points (map unit s) = map of_char s"
proof (induction s rule: induct_list012)
  case 1
  then show ?case by simp
next
  case (2 c)
  then show ?case by (simp add: unat_unit_char)
next
  case (3 c d s)
  have "\<not> is_high (unit c)"
    unfolding is_high_def unat_unit_char using of_char_le[of c] by linarith
  then show ?case using 3 by (simp add: unat_unit_char)
qed

lemma to_lowercase_latin1:
  "to_lowercase latin1 before (map of_char s) = map (of_char \<circ> to_lower_char) s"
proof (induction s arbitrary: before)
  case Nil
  then show ?case by simp
next
  case (Cons c s)
  have "(of_char c :: nat) \<noteq> 0x3A3" using of_char_le[of c] by linarith
  moreover have "lower_map latin1 (of_char c) = [of_char (to_lower_char c)]"
    by (simp add: latin1_def)
  ultimately show ?case
    using Cons[of "of_char c # before"] by (simp add: lowercase_mapping_def)
qed

lemma from_code_points_chars: "from_code_points (map of_char s) = map unit s"
proof (induction s)
  case Nil
  then show ?case by (simp add: from_code_points_def)
next
  case (Cons c s)
  have "(of_char c :: nat) < 0x10000" using of_char_le[of c] by linarith
  then show ?case using Cons by (simp add: from_code_points_def code_units_small unit_def)
qed

lemma white_space_unit: "white_space (unit c) = is_white_space c"
proof -
  define n where "n = (of_char c :: nat)"
  have "n \<le> 255" unfolding n_def by (rule of_char_le)
  then have "(n \<in> {0x9, 0xA, 0xB, 0xC, 0xD, 0x20, 0xA0, 0x1680, 0x2028, 0x2029, 0x202F,
                 0x205F, 0x3000, 0xFEFF} \<or> (0x2000 \<le> n \<and> n \<le> 0x200A)) =
             (n \<in> {9, 10, 11, 12, 13, 32, 160})"
    by auto
  then show ?thesis by (simp add: white_space_def is_white_space_def unat_unit_char n_def)
qed

lemma trim_units: "trim_utf16 (map unit s) = map unit (trim s)"
proof -
  have c: "white_space \<circ> unit = is_white_space" by (rule ext) (simp add: white_space_unit)
  have d: "dropWhile white_space (map unit xs) = map unit (dropWhile is_white_space xs)" for xs
    by (simp add: dropWhile_map c)
  show ?thesis by (simp add: trim_utf16_def trim_def d rev_map)
qed

lemma normalizeTone_latin1:
  "normalizeTone_utf16 latin1 (map unit s) = map unit (normalizeTone s)"
proof -
  have "toLowerCase_utf16 latin1 (map unit s) = map unit (toLowerCase s)"
    using from_code_points_chars[of "toLowerCase s"]
    by (simp add: toLowerCase_utf16_def code_points_units to_lowercase_latin1 toLowerCase_def)
  then show ?thesis by (simp add: normalizeTone_utf16_def normalizeTone_def trim_units)
qed

text \<open>
  C9: \<open>normalizeTone\<close> is idempotent: for every string \<open>s\<close> (every sequence of UTF-16 code
  units), \<open>normalizeTone (normalizeTone s) = normalizeTone s\<close>, whatever is Cased or
  Case_Ignorable, for every lower-case mapping whose images are themselves in lower
  case (\<open>stable_lowercase\<close>).
\<close>

theorem normalizeTone_utf16_idempotent:
  assumes "stable_lowercase U"
  shows "normalizeTone_utf16 U (normalizeTone_utf16 U s) = normalizeTone_utf16 U s"
proof -
  define L where "L = to_lowercase U [] (code_points s)"
  define L' where "L' = trim_with white_space_cp L"
  have Lb: "\<forall>c\<in>set L. c < 0x110000"
    unfolding L_def by (rule to_lowercase_bound[OF assms code_points_bound])
  have Ln: "no_pair L"
    unfolding L_def by (rule to_lowercase_no_pair[OF assms code_points_no_pair])
  have Ls: "\<forall>d\<in>set L. d \<noteq> 0x3A3 \<and> lower_map U d = [d]"
    unfolding L_def by (rule to_lowercase_stable[OF assms])
  have sub: "set L' \<subseteq> set L" unfolding L'_def by (rule trim_with_subset)
  have L'b: "\<forall>c\<in>set L'. c < 0x110000" using Lb sub by blast
  have L'n: "no_pair L'" unfolding L'_def using Ln by (rule trim_with_no_pair)
  have L's: "\<forall>d\<in>set L'. d \<noteq> 0x3A3 \<and> lower_map U d = [d]" using Ls sub by blast
  have n1: "normalizeTone_utf16 U s = from_code_points L'"
    unfolding normalizeTone_utf16_def toLowerCase_utf16_def L'_def
    using trim_from_code_points[OF Lb] by (simp add: L_def)
  have "toLowerCase_utf16 U (from_code_points L') = from_code_points L'"
    unfolding toLowerCase_utf16_def
    by (simp add: code_points_roundtrip[OF L'b L'n] to_lowercase_fixed[OF L's])
  then have "normalizeTone_utf16 U (from_code_points L') =
      from_code_points (trim_with white_space_cp L')"
    unfolding normalizeTone_utf16_def using trim_from_code_points[OF L'b] by simp
  also have "\<dots> = from_code_points L'" by (simp add: L'_def trim_with_idem)
  finally show ?thesis by (simp add: n1)
qed

theorem normalizeTone_utf16_idempotent_witness:
  "stable_lowercase latin1 \<and>
   normalizeTone_utf16 latin1 (map unit '' Professional '') = map unit ''professional'' \<and>
   normalizeTone_utf16 latin1 (normalizeTone_utf16 latin1 (map unit '' Professional '')) =
     map unit ''professional''"
  using normalizeTone_utf16_idempotent[OF stable_latin1, of "map unit '' Professional ''"]
  by (simp only: normalizeTone_latin1 normalizeTone_Professional stable_latin1)

section \<open>The streaming client\<close>

lemma onmessage_frame:
  assumes "d \<noteq> ''[DONE]''"
  shows "closed (onmessage parse st d) = closed st \<and>
         fullContent (onmessage parse st d) =
           fullContent st @
           (case rendered_content parse d of None \<Rightarrow> [] | Some (c, text) \<Rightarrow> text) \<and>
         callbacks (trace (onmessage parse st d)) =
           callbacks (trace st) @
           (case rendered_content parse d of None \<Rightarrow> [] | Some (c, text) \<Rightarrow> [OnChunk c])"
proof (cases "parse d")
  case None
  then show ?thesis using assms
    by (simp add: onmessage_def rendered_content_def frame_content_def callbacks_def)
next
  case (Some data)
  then show ?thesis using assms
    by (cases data)
      (auto simp: onmessage_def rendered_content_def frame_content_def callbacks_def
        split: option.splits)
qed






lemma callbacks_append: "callbacks (xs @ ys) = callbacks xs @ callbacks ys"
  by (simp add: callbacks_def)

lemma dispatch_observable:
  assumes "observable st1 = observable st2"
  shows "observable (dispatch parse st1 ev) = observable (dispatch parse st2 ev)"
proof (cases ev)
  case (Message d)
  then show ?thesis using assms
    by (auto simp: observable_def onmessage_def callbacks_append split: option.splits property.splits)
next
  case ErrorEvent
  then show ?thesis using assms by (auto simp: observable_def onerror_def callbacks_append)
next
  case Cancel
  then show ?thesis using assms by (auto simp: observable_def cancel_def callbacks_append)
qed

lemma run_observable:
  assumes "observable st1 = observable st2"
  shows "observable (foldl (dispatch parse) st1 evs) = observable (foldl (dispatch parse) st2 evs)"
  using assms
proof (induction evs arbitrary: st1 st2)
  case Nil
  then show ?case by simp
next
  case (Cons ev evs)
  from Cons.IH[OF dispatch_observable[OF Cons.prems, of parse ev]] show ?case by simp
qed

lemma frame_content_skipped:
  assumes "parse d = None \<or>
           (\<exists>kvs. parse d = Some (JObj kvs) \<and> ''content'' \<notin> fst ` set kvs) \<or>
           (\<exists>xs. parse d = Some (JArr xs))"
  shows "rendered_content parse d = None"
  using assms
  by (auto simp: rendered_content_def frame_content_def map_of_eq_None_iff[symmetric]
      split: option.splits)







text \<open>
  C10: a frame (other than the sentinel \<open>[DONE]\<close>) whose data is not valid JSON, or
  parses to an object or array without a \<open>content\<close> property, is skipped: it causes no
  callback, leaves the accumulated content unchanged and does not close the stream, and
  the frames after it are processed as if it had not been sent.
\<close>

theorem malformed_frame_skipped:
  assumes "d \<noteq> ''[DONE]''"
    and "parse d = None \<or>
           (\<exists>kvs. parse d = Some (JObj kvs) \<and> ''content'' \<notin> fst ` set kvs) \<or>
           (\<exists>xs. parse d = Some (JArr xs))"
  shows "(\<not> closed st \<longrightarrow>
            \<not> closed (dispatch parse st (Message d)) \<and>
            fullContent (dispatch parse st (Message d)) = fullContent st \<and>
            callbacks (trace (dispatch parse st (Message d))) = callbacks (trace st)) \<and>
         observable (generateContentStream parse (pre @ Message d # post)) =
           observable (generateContentStream parse (pre @ post))"
proof -
  have fc: "rendered_content parse d = None" using assms(2) by (rule frame_content_skipped)
  have step: "observable (dispatch parse s (Message d)) = observable s" for s
    using onmessage_frame[OF assms(1), of parse s] fc by (simp add: observable_def)
  have "observable (foldl (dispatch parse) (dispatch parse (foldl (dispatch parse) init pre) (Message d)) post) =
        observable (foldl (dispatch parse) (foldl (dispatch parse) init pre) post)"
    by (rule run_observable) (rule step)
  moreover have "\<not> closed st \<longrightarrow>
            \<not> closed (dispatch parse st (Message d)) \<and>
            fullContent (dispatch parse st (Message d)) = fullContent st \<and>
            callbacks (trace (dispatch parse st (Message d))) = callbacks (trace st)"
    using step[of st] by (auto simp: observable_def split: if_splits)
  ultimately show ?thesis
    by (simp add: generateContentStream_def)
qed

theorem malformed_frame_skipped_witness:
  "''oops'' \<noteq> ''[DONE]'' \<and>
   observable (generateContentStream
       (\<lambda>d. if d = ''{\"content\":\"Hel\"}'' then Some (JObj [(''content'', JStr ''Hel'')])
            else if d = ''{\"error\":\"x\"}'' then Some (JObj [(''error'', JStr ''x'')])
            else None)
       ([Message ''{\"content\":\"Hel\"}''] @ Message ''oops'' # [Message ''{\"content\":\"Hel\"}''])) =
     (False, ''HelHel'', [OnChunk (JStr ''Hel''), OnChunk (JStr ''Hel'')])"
  using malformed_frame_skipped[of "''oops''"
       "\<lambda>d. if d = ''{\"content\":\"Hel\"}'' then Some (JObj [(''content'', JStr ''Hel'')])
            else if d = ''{\"error\":\"x\"}'' then Some (JObj [(''error'', JStr ''x'')])
            else None" init "[Message ''{\"content\":\"Hel\"}'']" "[Message ''{\"content\":\"Hel\"}'']"]
  by (simp add: generateContentStream_def init_def onmessage_def observable_def callbacks_def)

end
